theory Spec2Isabelle
  imports Complex_Main "HOL-Library.Word"
begin

unbundle bit_operations_syntax

section \<open>Data model of can\_signal\_parser.c\<close>

text \<open>
  \<^verbatim>\<open>Can_Message_t\<close>: the identifier is a \<^verbatim>\<open>uint32_t\<close>, the data length code a
  \<^verbatim>\<open>uint8_t\<close>, the payload the array \<^verbatim>\<open>uint8_t data[8]\<close> (a list of bytes; a message
  of the program has exactly eight). The field \<^verbatim>\<open>id\<close> is named \<open>id_msg\<close> here because
  \<open>id\<close> is the identity function of HOL.
\<close>

record Can_Message_t =
  id_msg :: "32 word"
  dlc :: "8 word"
  data :: "8 word list"
  extended_id :: bool
  rtr :: bool

text \<open>
  \<^verbatim>\<open>Can_Signal_t\<close>. The four \<^verbatim>\<open>float\<close> fields have the type parameter \<open>'f\<close>: the
  floating-point numbers are not fixed by the model, their arithmetic is a parameter of
  the functions that compute with them (\<open>float_arith\<close> below). The field \<^verbatim>\<open>length\<close>
  is named \<open>length_sig\<close> because \<open>length\<close> is the length of a list in HOL.
\<close>

record 'f Can_Signal_t =
  start_bit :: "16 word"
  length_sig :: "8 word"
  factor :: 'f
  offset :: 'f
  min_value :: 'f
  max_value :: 'f

text \<open>
  The operations on \<^verbatim>\<open>float\<close> that the program uses: the conversion of an integer
  value (\<^verbatim>\<open>(float)signed_value\<close>, \<^verbatim>\<open>(float)raw_value\<close>, the promotion of \<^verbatim>\<open>rpm\<close>),
  multiplication, addition, division, the conversion \<^verbatim>\<open>(uint64_t)\<close> of a float, which
  truncates, and the value of a literal such as \<^verbatim>\<open>0.25f\<close>. The comparisons \<^verbatim>\<open><\<close> and
  \<^verbatim>\<open>>\<close> are those of a linear order on \<open>'f\<close> (no NaN operand).
\<close>

record 'f float_arith =
  f_of_int :: "int \<Rightarrow> 'f"
  f_mul :: "'f \<Rightarrow> 'f \<Rightarrow> 'f"
  f_add :: "'f \<Rightarrow> 'f \<Rightarrow> 'f"
  f_div :: "'f \<Rightarrow> 'f \<Rightarrow> 'f"
  f_trunc :: "'f \<Rightarrow> int"
  f_lit :: "real \<Rightarrow> 'f"

text \<open>
  Exact arithmetic on the reals, one instance of \<open>float_arith\<close>: it agrees with binary
  floating point on every computation that binary floating point performs without
  rounding (small integers, powers of two).
\<close>

definition exact_arith :: "real float_arith" where
  "exact_arith =
     \<lparr> f_of_int = real_of_int,
       f_mul = (\<lambda>x y. x * y),
       f_add = (\<lambda>x y. x + y),
       f_div = (\<lambda>x y. x / y),
       f_trunc = (\<lambda>x. if 0 \<le> x then \<lfloor>x\<rfloor> else \<lceil>x\<rceil>),
       f_lit = (\<lambda>x. x) \<rparr>"

text \<open>
  The program has no error result: \<^verbatim>\<open>Can_ExtractSignal\<close> returns a \<^verbatim>\<open>uint64_t\<close>,
  \<^verbatim>\<open>Can_InsertSignal\<close> returns nothing. What the model marks with \<open>Inl\<close> is an
  operation whose behaviour the C language leaves undefined, at which the model stops:
  an index into \<^verbatim>\<open>data[8]\<close> that is not in 0..7, and a shift of a 64-bit operand by a
  count that is negative or at least 64.
\<close>

datatype fault = Index_Out_Of_Range nat | Shift_Out_Of_Range int

section \<open>Bit addressing\<close>

text \<open>
  The address computation of the four loops. \<^verbatim>\<open>bit_pos\<close> is a \<^verbatim>\<open>uint16_t\<close>
  (\<^verbatim>\<open>start_bit + i\<close> or \<^verbatim>\<open>start_bit - i\<close>, reduced modulo \<open>2^16\<close> by the assignment),
  \<^verbatim>\<open>byte_idx = bit_pos / 8\<close> and \<^verbatim>\<open>bit_idx\<close> are \<^verbatim>\<open>uint8_t\<close> (reduced modulo \<open>2^8\<close>).
  The loop counter \<^verbatim>\<open>uint8_t i\<close> runs from 0 while \<^verbatim>\<open>i < length\<close>, so it never wraps
  and is a natural number here.
\<close>

definition bit_pos_intel :: "16 word \<Rightarrow> nat \<Rightarrow> 16 word" where
  "bit_pos_intel sb i = sb + of_nat i"

definition bit_pos_motorola :: "16 word \<Rightarrow> nat \<Rightarrow> 16 word" where
  "bit_pos_motorola sb i = sb - of_nat i"

definition byte_idx_of :: "16 word \<Rightarrow> 8 word" where
  "byte_idx_of bit_pos = ucast (bit_pos div 8)"

definition bit_idx_intel :: "16 word \<Rightarrow> 8 word" where
  "bit_idx_intel bit_pos = ucast (bit_pos mod 8)"

definition bit_idx_motorola :: "16 word \<Rightarrow> 8 word" where
  "bit_idx_motorola bit_pos = 7 - ucast (bit_pos mod 8)"

section \<open>Can\_ExtractSignal\<close>

text \<open>
  One iteration of the Intel loop (lines 53--61): the byte is read first, and
  \<^verbatim>\<open>1ULL << i\<close> is evaluated only when the bit read is set.
\<close>

definition extract_intel_body :: "8 word list \<Rightarrow> 16 word \<Rightarrow> nat \<Rightarrow> 64 word \<Rightarrow> fault + 64 word" where
  "extract_intel_body d sb i raw_value =
     (let bit_pos = bit_pos_intel sb i;
          byte_idx = byte_idx_of bit_pos;
          bit_idx = bit_idx_intel bit_pos
      in if 8 \<le> unat byte_idx then Inl (Index_Out_Of_Range (unat byte_idx))
         else if bit (d ! unat byte_idx) (unat bit_idx)
           then (if 64 \<le> i then Inl (Shift_Out_Of_Range (int i))
                 else Inr (raw_value OR push_bit i 1))
           else Inr raw_value)"

function extract_intel :: "8 word list \<Rightarrow> 16 word \<Rightarrow> 8 word \<Rightarrow> nat \<Rightarrow> 64 word \<Rightarrow> fault + 64 word" where
  "extract_intel d sb len i raw_value =
     (if i < unat len
      then (case extract_intel_body d sb i raw_value of
              Inl e \<Rightarrow> Inl e
            | Inr raw_value' \<Rightarrow> extract_intel d sb len (i + 1) raw_value')
      else Inr raw_value)"
  by pat_completeness auto
termination
  by (relation "measure (\<lambda>(d, sb, len, i, raw_value). unat len - i)") auto

text \<open>
  One iteration of the Motorola loop (lines 42--50). The shift count
  \<^verbatim>\<open>length - 1 - i\<close> is not negative inside the loop (\<^verbatim>\<open>i < length\<close>).
\<close>

definition extract_motorola_body :: "8 word list \<Rightarrow> 16 word \<Rightarrow> 8 word \<Rightarrow> nat \<Rightarrow> 64 word \<Rightarrow> fault + 64 word" where
  "extract_motorola_body d sb len i raw_value =
     (let bit_pos = bit_pos_motorola sb i;
          byte_idx = byte_idx_of bit_pos;
          bit_idx = bit_idx_motorola bit_pos
      in if 8 \<le> unat byte_idx then Inl (Index_Out_Of_Range (unat byte_idx))
         else if bit (d ! unat byte_idx) (unat bit_idx)
           then (if 64 \<le> unat len - 1 - i then Inl (Shift_Out_Of_Range (int (unat len - 1 - i)))
                 else Inr (raw_value OR push_bit (unat len - 1 - i) 1))
           else Inr raw_value)"

function extract_motorola :: "8 word list \<Rightarrow> 16 word \<Rightarrow> 8 word \<Rightarrow> nat \<Rightarrow> 64 word \<Rightarrow> fault + 64 word" where
  "extract_motorola d sb len i raw_value =
     (if i < unat len
      then (case extract_motorola_body d sb len i raw_value of
              Inl e \<Rightarrow> Inl e
            | Inr raw_value' \<Rightarrow> extract_motorola d sb len (i + 1) raw_value')
      else Inr raw_value)"
  by pat_completeness auto
termination
  by (relation "measure (\<lambda>(d, sb, len, i, raw_value). unat len - i)") auto

definition Can_ExtractSignal :: "Can_Message_t \<Rightarrow> 16 word \<Rightarrow> 8 word \<Rightarrow> bool \<Rightarrow> fault + 64 word" where
  "Can_ExtractSignal msg sb len motorola =
     (if motorola then extract_motorola (data msg) sb len 0 0
      else extract_intel (data msg) sb len 0 0)"

section \<open>Can\_InsertSignal\<close>

text \<open>
  One iteration of the Intel loop (lines 87--97): \<^verbatim>\<open>value >> i\<close> is evaluated first,
  then the byte is updated, \<^verbatim>\<open>|= (1 << bit_idx)\<close> to set the bit and
  \<^verbatim>\<open>&= ~(1 << bit_idx)\<close> to clear it.
\<close>

definition set_or_clear :: "8 word list \<Rightarrow> 8 word \<Rightarrow> 8 word \<Rightarrow> bool \<Rightarrow> fault + 8 word list" where
  "set_or_clear d byte_idx bit_idx b =
     (if 8 \<le> unat byte_idx then Inl (Index_Out_Of_Range (unat byte_idx))
      else if b
        then Inr (d[unat byte_idx := d ! unat byte_idx OR push_bit (unat bit_idx) 1])
        else Inr (d[unat byte_idx := d ! unat byte_idx AND NOT (push_bit (unat bit_idx) 1)]))"

definition insert_intel_body :: "8 word list \<Rightarrow> 16 word \<Rightarrow> 64 word \<Rightarrow> nat \<Rightarrow> fault + 8 word list" where
  "insert_intel_body d sb v i =
     (let bit_pos = bit_pos_intel sb i;
          byte_idx = byte_idx_of bit_pos;
          bit_idx = bit_idx_intel bit_pos
      in if 64 \<le> i then Inl (Shift_Out_Of_Range (int i))
         else set_or_clear d byte_idx bit_idx (bit v i))"

function insert_intel :: "8 word list \<Rightarrow> 16 word \<Rightarrow> 8 word \<Rightarrow> 64 word \<Rightarrow> nat \<Rightarrow> fault + 8 word list" where
  "insert_intel d sb len v i =
     (if i < unat len
      then (case insert_intel_body d sb v i of
              Inl e \<Rightarrow> Inl e
            | Inr d' \<Rightarrow> insert_intel d' sb len v (i + 1))
      else Inr d)"
  by pat_completeness auto
termination
  by (relation "measure (\<lambda>(d, sb, len, v, i). unat len - i)") auto

definition insert_motorola_body :: "8 word list \<Rightarrow> 16 word \<Rightarrow> 8 word \<Rightarrow> 64 word \<Rightarrow> nat \<Rightarrow> fault + 8 word list" where
  "insert_motorola_body d sb len v i =
     (let bit_pos = bit_pos_motorola sb i;
          byte_idx = byte_idx_of bit_pos;
          bit_idx = bit_idx_motorola bit_pos
      in if 64 \<le> unat len - 1 - i then Inl (Shift_Out_Of_Range (int (unat len - 1 - i)))
         else set_or_clear d byte_idx bit_idx (bit v (unat len - 1 - i)))"

function insert_motorola :: "8 word list \<Rightarrow> 16 word \<Rightarrow> 8 word \<Rightarrow> 64 word \<Rightarrow> nat \<Rightarrow> fault + 8 word list" where
  "insert_motorola d sb len v i =
     (if i < unat len
      then (case insert_motorola_body d sb len v i of
              Inl e \<Rightarrow> Inl e
            | Inr d' \<Rightarrow> insert_motorola d' sb len v (i + 1))
      else Inr d)"
  by pat_completeness auto
termination
  by (relation "measure (\<lambda>(d, sb, len, v, i). unat len - i)") auto

definition Can_InsertSignal :: "Can_Message_t \<Rightarrow> 16 word \<Rightarrow> 8 word \<Rightarrow> 64 word \<Rightarrow> bool \<Rightarrow> fault + Can_Message_t" where
  "Can_InsertSignal msg sb len v motorola =
     (case (if motorola then insert_motorola (data msg) sb len v 0
            else insert_intel (data msg) sb len v 0) of
        Inl e \<Rightarrow> Inl e
      | Inr d' \<Rightarrow> Inr (msg\<lparr>data := d'\<rparr>))"

section \<open>Can\_SignalToPhysical\<close>

text \<open>
  The signed interpretation (lines 110--114). The \<^verbatim>\<open>int64_t signed_value\<close> is kept as
  its 64-bit pattern and read with \<open>sint\<close>. \<^verbatim>\<open>1ULL << (signal->length - 1)\<close> is
  evaluated first, and \<^verbatim>\<open>~0ULL << signal->length\<close> only when the tested bit is set;
  either shift is undefined for a count outside 0..63.
\<close>

definition signed_value_of :: "64 word \<Rightarrow> 8 word \<Rightarrow> fault + 64 word" where
  "signed_value_of raw_value len =
     (if int (unat len) - 1 < 0 \<or> 64 \<le> int (unat len) - 1
      then Inl (Shift_Out_Of_Range (int (unat len) - 1))
      else if raw_value AND push_bit (unat len - 1) 1 \<noteq> 0
        then (if 64 \<le> unat len then Inl (Shift_Out_Of_Range (int (unat len)))
              else Inr (raw_value OR push_bit (unat len) (NOT 0)))
        else Inr raw_value)"

text \<open>The integer that is converted to \<^verbatim>\<open>float\<close> and scaled (lines 108--118).\<close>

definition numeric_value :: "64 word \<Rightarrow> 8 word \<Rightarrow> bool \<Rightarrow> fault + int" where
  "numeric_value raw_value len is_signed =
     (if is_signed
      then (case signed_value_of raw_value len of
              Inl e \<Rightarrow> Inl e
            | Inr signed_value \<Rightarrow> Inr (sint signed_value))
      else Inr (uint raw_value))"

text \<open>The scaled value before the range check (lines 115 and 117).\<close>

definition scaled_value :: "'f float_arith \<Rightarrow> int \<Rightarrow> 'f Can_Signal_t \<Rightarrow> 'f" where
  "scaled_value fa n signal = f_add fa (f_mul fa (f_of_int fa n) (factor signal)) (offset signal)"

text \<open>The range check (lines 121--125).\<close>

definition range_check :: "('f::linorder) Can_Signal_t \<Rightarrow> 'f \<Rightarrow> 'f" where
  "range_check signal physical_value =
     (if physical_value < min_value signal then min_value signal
      else if physical_value > max_value signal then max_value signal
      else physical_value)"

definition Can_SignalToPhysical ::
  "'f float_arith \<Rightarrow> 64 word \<Rightarrow> ('f::linorder) Can_Signal_t \<Rightarrow> bool \<Rightarrow> fault + 'f" where
  "Can_SignalToPhysical fa raw_value signal is_signed =
     (case numeric_value raw_value (length_sig signal) is_signed of
        Inl e \<Rightarrow> Inl e
      | Inr n \<Rightarrow> Inr (range_check signal (scaled_value fa n signal)))"

text \<open>
  The event that the range check replaced the scaled value by a bound: one of the two
  conditions of lines 121 and 123 held.
\<close>

definition range_clamped :: "('f::linorder) Can_Signal_t \<Rightarrow> 'f \<Rightarrow> bool" where
  "range_clamped signal physical_value =
     (physical_value < min_value signal \<or> physical_value > max_value signal)"

section \<open>Can\_CreateEngineRpmMessage\<close>

text \<open>
  \<^verbatim>\<open>memset\<close> zeroes the message, then the four scalar fields are assigned. The raw
  value is \<^verbatim>\<open>(uint64_t)(rpm / 0.25f)\<close>, replaced by 32000 when \<^verbatim>\<open>rpm > 8000\<close>, and is
  inserted at bit 16 with length 16 in Intel order.
\<close>

definition Can_CreateEngineRpmMessage :: "'f float_arith \<Rightarrow> 16 word \<Rightarrow> fault + Can_Message_t" where
  "Can_CreateEngineRpmMessage fa rpm =
     (let msg = \<lparr> id_msg = 0x234, dlc = 8, data = [0, 0, 0, 0, 0, 0, 0, 0],
                  extended_id = False, rtr = False \<rparr>;
          raw_rpm0 = (word_of_int (f_trunc fa (f_div fa (f_of_int fa (uint rpm)) (f_lit fa 0.25))) :: 64 word);
          raw_rpm = (if rpm > 8000 then 32000 else raw_rpm0)
      in Can_InsertSignal msg 16 16 raw_rpm False)"

section \<open>Can\_ValidateMessage\<close>

definition Can_ValidateMessage :: "Can_Message_t \<Rightarrow> bool" where
  "Can_ValidateMessage msg =
     (if dlc msg > 8 then False
      else if extended_id msg
        then (if id_msg msg > 0x1FFFFFFF then False else True)
        else (if id_msg msg > 0x7FF then False else True))"

section \<open>Notions used to state the properties\<close>

text \<open>
  The payload bit at the linear index \<open>p\<close>: bit \<open>p mod 8\<close> (0 the least significant)
  of byte \<open>p div 8\<close>.
\<close>

definition payload_bit :: "8 word list \<Rightarrow> nat \<Rightarrow> bool" where
  "payload_bit d p = bit (d ! (p div 8)) (p mod 8)"

text \<open>
  The linear index of the payload bit that iteration \<open>i\<close> of a loop reads or writes:
  \<open>8 * byte_idx + bit_idx\<close>, with the byte and bit indices as the loops compute them.
\<close>

definition addressed_bit :: "16 word \<Rightarrow> bool \<Rightarrow> nat \<Rightarrow> nat" where
  "addressed_bit sb motorola i =
     (if motorola
      then 8 * unat (byte_idx_of (bit_pos_motorola sb i)) + unat (bit_idx_motorola (bit_pos_motorola sb i))
      else 8 * unat (byte_idx_of (bit_pos_intel sb i)) + unat (bit_idx_intel (bit_pos_intel sb i)))"

text \<open>
  A field lies within the 8-byte payload when every bit position \<^verbatim>\<open>bit_pos\<close> of the
  field is in 0..63: positions \<open>start_bit .. start_bit + length - 1\<close> in Intel order,
  \<open>start_bit - length + 1 .. start_bit\<close> in Motorola order.
\<close>

definition field_in_payload :: "16 word \<Rightarrow> 8 word \<Rightarrow> bool \<Rightarrow> bool" where
  "field_in_payload sb len motorola =
     (if motorola then unat len \<le> unat sb + 1 \<and> unat sb < 64
      else unat sb + unat len \<le> 64)"


text \<open>
  The byte index with which iteration \<open>i\<close> of a loop subscripts \<^verbatim>\<open>data\<close>.
\<close>

definition byte_index :: "16 word \<Rightarrow> bool \<Rightarrow> nat \<Rightarrow> nat" where
  "byte_index sb motorola i =
     unat (byte_idx_of (if motorola then bit_pos_motorola sb i else bit_pos_intel sb i))"

section \<open>Evaluation\<close>

declare extract_intel.simps [simp del] extract_motorola.simps [simp del]
  insert_intel.simps [simp del] insert_motorola.simps [simp del]

lemmas addr_defs = bit_pos_intel_def bit_pos_motorola_def byte_idx_of_def
  bit_idx_intel_def bit_idx_motorola_def

lemmas extract_eval = Can_ExtractSignal_def extract_intel.simps extract_motorola.simps
  extract_intel_body_def extract_motorola_body_def addr_defs

lemmas insert_eval = Can_InsertSignal_def insert_intel.simps insert_motorola.simps
  insert_intel_body_def insert_motorola_body_def set_or_clear_def addr_defs

section \<open>Message validation\<close>

lemma validate_iff:
  "Can_ValidateMessage msg =
     (dlc msg \<le> 8 \<and> (if extended_id msg then id_msg msg \<le> 0x1FFFFFFF else id_msg msg \<le> 0x7FF))"
  by (auto simp add: Can_ValidateMessage_def not_less)

text \<open>
  Claim C7. \<^verbatim>\<open>Can_ValidateMessage\<close> accepts a message exactly when its \<^verbatim>\<open>dlc\<close> is at
  most 8 and its identifier is at most \<open>0x7FF\<close> (standard) or \<open>0x1FFFFFFF\<close> (extended).
  In particular, whatever the other fields of the message are: with the identifier
  \<open>0x7FF\<close> standard or \<open>0x1FFFFFFF\<close> extended the answer is that of the \<^verbatim>\<open>dlc\<close> check
  alone, \<open>0x800\<close> standard and \<open>0x20000000\<close> extended are rejected, and so is
  \<^verbatim>\<open>dlc = 9\<close> with any identifier.
\<close>

theorem Can_ValidateMessage_accepts:
  "Can_ValidateMessage msg =
     (dlc msg \<le> 8 \<and> (if extended_id msg then id_msg msg \<le> 0x1FFFFFFF else id_msg msg \<le> 0x7FF))
   \<and> Can_ValidateMessage (msg\<lparr>id_msg := 0x7FF, extended_id := False\<rparr>) = (dlc msg \<le> 8)
   \<and> Can_ValidateMessage (msg\<lparr>id_msg := 0x1FFFFFFF, extended_id := True\<rparr>) = (dlc msg \<le> 8)
   \<and> \<not> Can_ValidateMessage (msg\<lparr>id_msg := 0x800, extended_id := False\<rparr>)
   \<and> \<not> Can_ValidateMessage (msg\<lparr>id_msg := 0x20000000, extended_id := True\<rparr>)
   \<and> \<not> Can_ValidateMessage (msg\<lparr>dlc := 9\<rparr>)"
  unfolding validate_iff by simp

section \<open>The engine RPM message\<close>

text \<open>
  Claim C9. For every \<^verbatim>\<open>rpm > 8000\<close>, and whatever the floating-point arithmetic
  computes for \<^verbatim>\<open>rpm / 0.25f\<close>, \<^verbatim>\<open>Can_CreateEngineRpmMessage\<close> returns the message whose
  bytes 2 and 3 hold the raw value 32000 = \<open>0x7D00\<close> in Intel order, all other payload
  bits zero: extracting the field gives 32000, the encoding of 8000 at factor 0.25.
\<close>

theorem create_rpm_above_max:
  assumes "rpm > 8000"
  shows "Can_CreateEngineRpmMessage fa rpm =
           Inr \<lparr> id_msg = 0x234, dlc = 8, data = [0, 0, 0x00, 0x7D, 0, 0, 0, 0],
                 extended_id = False, rtr = False \<rparr>
         \<and> Can_ExtractSignal \<lparr> id_msg = 0x234, dlc = 8, data = [0, 0, 0x00, 0x7D, 0, 0, 0, 0],
                 extended_id = False, rtr = False \<rparr> 16 16 False = Inr 32000"
  using assms by (simp add: Can_CreateEngineRpmMessage_def insert_eval extract_eval)

theorem create_rpm_above_max_witness:
  "(9000 :: 16 word) > 8000
   \<and> Can_CreateEngineRpmMessage exact_arith 9000 =
       Inr \<lparr> id_msg = 0x234, dlc = 8, data = [0, 0, 0x00, 0x7D, 0, 0, 0, 0],
             extended_id = False, rtr = False \<rparr>"
  using create_rpm_above_max [of 9000 exact_arith] by simp

section \<open>Single-byte extraction\<close>

text \<open>
  Claim C8, as stated, fails: with \<^verbatim>\<open>start_bit = 7\<close> and \<^verbatim>\<open>length = 8\<close> the Intel loop
  reads bit 7 of byte 0 and bits 0..6 of byte 1, not byte 0. On the payload
  \<open>0x81, 0, 0, 0, 0, 0, 0, 0\<close> it returns 1, not \<open>0x81\<close>.
\<close>

theorem extract_byte0_intel7_counterexample:
  "Can_ExtractSignal \<lparr> id_msg = 0x123, dlc = 8, data = [0x81, 0, 0, 0, 0, 0, 0, 0],
       extended_id = False, rtr = False \<rparr> 7 8 False = Inr 1
   \<and> Can_ExtractSignal \<lparr> id_msg = 0x123, dlc = 8, data = [0x81, 0, 0, 0, 0, 0, 0, 0],
       extended_id = False, rtr = False \<rparr> 7 8 False \<noteq> Inr 0x81"
  by (simp add: extract_eval)

text \<open>
  Claim C8, amended. For a payload whose byte 0 equals \<open>0b10000001\<close>, Intel extraction
  with \<^verbatim>\<open>start_bit = 0\<close> and \<^verbatim>\<open>length = 8\<close> reads byte 0 and returns \<open>0x81\<close>, and
  Motorola extraction with \<^verbatim>\<open>start_bit = 7\<close> and \<^verbatim>\<open>length = 8\<close>, which spans that
  single byte, returns \<open>0x81\<close> as well.
\<close>

theorem extract_single_byte:
  assumes "data msg ! 0 = 0x81"
  shows "Can_ExtractSignal msg 0 8 False = Inr 0x81 \<and> Can_ExtractSignal msg 7 8 True = Inr 0x81"
  using assms by (simp add: extract_eval)

theorem extract_single_byte_witness:
  "data \<lparr> id_msg = 0x123, dlc = 8, data = [0x81, 0x55, 0, 0, 0, 0, 0, 0],
       extended_id = False, rtr = False \<rparr> ! 0 = 0x81
   \<and> Can_ExtractSignal \<lparr> id_msg = 0x123, dlc = 8, data = [0x81, 0x55, 0, 0, 0, 0, 0, 0],
       extended_id = False, rtr = False \<rparr> 0 8 False = Inr 0x81
   \<and> Can_ExtractSignal \<lparr> id_msg = 0x123, dlc = 8, data = [0x81, 0x55, 0, 0, 0, 0, 0, 0],
       extended_id = False, rtr = False \<rparr> 7 8 True = Inr 0x81"
  using extract_single_byte [of "\<lparr> id_msg = 0x123, dlc = 8,
    data = [0x81, 0x55, 0, 0, 0, 0, 0, 0], extended_id = False, rtr = False \<rparr>"]
  by simp

section \<open>Signed interpretation\<close>

lemma take_bit_uint_less:
  fixes raw :: "64 word"
  assumes "take_bit n raw = raw"
  shows "uint raw < 2 ^ n"
  by (metis assms take_bit_int_less_exp unsigned_take_bit_eq)

lemma sign_extend_disjoint:
  fixes raw :: "64 word"
  assumes "take_bit n raw = raw"
  shows "raw OR push_bit n (NOT 0) = raw + push_bit n (NOT 0)"
proof -
  have "\<not> bit raw k \<or> \<not> bit (push_bit n (NOT 0 :: 64 word)) k" for k
  proof (cases "k < n")
    case True
    then show ?thesis by (simp add: bit_simps)
  next
    case False
    have "bit (take_bit n raw) k = False" using False by (simp add: bit_take_bit_iff)
    then show ?thesis using assms by simp
  qed
  then show ?thesis by (rule disjunctive_add [symmetric])
qed

lemma sign_extend_value:
  fixes raw :: "64 word"
  assumes "n \<le> 63" and "take_bit n raw = raw"
  shows "sint (raw OR push_bit n (NOT 0)) = uint raw - 2 ^ n"
proof -
  have u: "uint raw < 2 ^ n"
    using assms(2) by (rule take_bit_uint_less)
  have p: "(2::int) ^ n \<le> 2 ^ 63"
    using assms(1) by (intro power_increasing) auto
  have z: "(0::int) < 2 ^ n" "0 \<le> uint raw" by simp_all
  have "raw OR push_bit n (NOT 0) = raw + push_bit n (NOT 0)"
    using assms(2) by (rule sign_extend_disjoint)
  also have "\<dots> = word_of_int (uint raw - 2 ^ n)"
    by (simp add: push_bit_eq_mult)
  finally have eq: "raw OR push_bit n (NOT 0) = word_of_int (uint raw - 2 ^ n)" .
  have "sint (word_of_int (uint raw - 2 ^ n) :: 64 word) = signed_take_bit 63 (uint raw - 2 ^ n)"
    by (simp only: sint_sbintrunc') simp
  also have "\<dots> = uint raw - 2 ^ n"
  proof (rule signed_take_bit_int_eq_self)
    show "- (2 ^ 63) \<le> uint raw - 2 ^ n" using p z by linarith
    show "uint raw - 2 ^ n < 2 ^ 63" using u p z by linarith
  qed
  finally show ?thesis unfolding eq .
qed

lemma sint_small:
  fixes raw :: "64 word"
  assumes "uint raw < 2 ^ 63"
  shows "sint raw = uint raw"
proof -
  have "sint raw = signed_take_bit 63 (uint raw)"
    by (simp add: sint_uint)
  also have "\<dots> = uint raw"
  proof (rule signed_take_bit_int_eq_self)
    have "0 \<le> uint raw" "(0::int) < 2 ^ 63" by simp_all
    then show "- (2 ^ 63) \<le> uint raw" by linarith
    show "uint raw < 2 ^ 63" using assms .
  qed
  finally show ?thesis .
qed

lemma signed_value_of_defined:
  assumes "1 \<le> unat len" and "unat len \<le> 63"
  shows "signed_value_of raw len =
           (if bit raw (unat len - 1) then Inr (raw OR push_bit (unat len) (NOT 0)) else Inr raw)"
proof -
  have c: "\<not> (int (unat len) - 1 < 0 \<or> 64 \<le> int (unat len) - 1)" "\<not> 64 \<le> unat len"
    using assms by linarith+
  show ?thesis
    unfolding signed_value_of_def bit_iff_and_push_bit_not_eq_0 [symmetric]
    by (simp only: c if_False)
qed

lemma numeric_value_two_complement:
  assumes "1 \<le> unat len" and "unat len \<le> 63" and "take_bit (unat len) raw = raw"
  shows "numeric_value raw len True =
           Inr (if bit raw (unat len - 1) then uint raw - 2 ^ unat len else uint raw)"
proof -
  have "uint raw < 2 ^ unat len"
    using assms(3) by (rule take_bit_uint_less)
  moreover have "(2::int) ^ unat len \<le> 2 ^ 63"
    using assms(2) by (intro power_increasing) auto
  ultimately have "uint raw < 2 ^ 63" by linarith
  then have nonneg: "sint raw = uint raw" by (rule sint_small)
  have neg: "sint (raw OR push_bit (unat len) (NOT 0)) = uint raw - 2 ^ unat len"
    using assms(2,3) by (rule sign_extend_value)
  show ?thesis
    unfolding numeric_value_def signed_value_of_defined [OF assms(1,2)]
    by (cases "bit raw (unat len - 1)") (simp_all only: if_True if_False sum.case nonneg neg)
qed

lemma numeric_value_unsigned: "numeric_value raw len False = Inr (uint raw)"
  by (simp add: numeric_value_def)

lemma numeric_value_byte_examples:
  "numeric_value 0xFF 8 True = Inr (- 1)" "numeric_value 0xFF 8 False = Inr 255"
  using numeric_value_two_complement [of 8 255]
   apply simp
  apply (simp add: numeric_value_def)
  done

text \<open>
  Claim C4 holds for the lengths 1..63 (\<open>numeric_value_two_complement\<close>,
  \<open>numeric_value_unsigned\<close>, \<open>numeric_value_byte_examples\<close>), and fails at the length
  64 that it includes: for a signed raw value with bit 63 set the program evaluates
  \<^verbatim>\<open>~0ULL << 64\<close>, a shift by the width of its operand, which C leaves undefined,
  where the claim gives the value \<open>raw - 2^64\<close>.
\<close>

theorem signed_length_64_undefined:
  "numeric_value 0x8000000000000000 64 True = Inl (Shift_Out_Of_Range 64)
   \<and> Can_SignalToPhysical fa 0x8000000000000000 (signal\<lparr>length_sig := 64\<rparr>) True
       = Inl (Shift_Out_Of_Range 64)"
  by (simp add: Can_SignalToPhysical_def numeric_value_def signed_value_of_def)

section \<open>Scaling and clamping\<close>

text \<open>
  The numeric value as a function of the raw value, the length and the signedness,
  wherever the integer stage is defined: unsigned for every length, signed for the
  lengths 1..63 and a raw value of that width.
\<close>

lemma numeric_value_defined:
  assumes "\<not> is_signed \<or>
             (1 \<le> unat len \<and> unat len \<le> 63 \<and> take_bit (unat len) raw = raw)"
  shows "numeric_value raw len is_signed =
           Inr (if is_signed \<and> bit raw (unat len - 1) then uint raw - 2 ^ unat len
                else uint raw)"
proof (cases is_signed)
  case False
  then show ?thesis by (simp add: numeric_value_unsigned)
next
  case True
  then have "1 \<le> unat len" "unat len \<le> 63" "take_bit (unat len) raw = raw"
    using assms by simp_all
  then have "numeric_value raw len True =
           Inr (if bit raw (unat len - 1) then uint raw - 2 ^ unat len else uint raw)"
    by (rule numeric_value_two_complement)
  then show ?thesis using True by simp
qed

text \<open>
  On those inputs, and for a descriptor with \<^verbatim>\<open>min_value <= max_value\<close>, the result
  is the scaled value \<open>p = n * factor + offset\<close> (in the arithmetic of the
  floating-point type) clamped to the bounds: \<^verbatim>\<open>min_value\<close> when \<open>p\<close> is below it,
  \<^verbatim>\<open>max_value\<close> when \<open>p\<close> is above it, \<open>p\<close> itself otherwise. The bounds are compared
  with the scaled value, never with the raw one. The first example is the one of the
  claim: raw 65535, length 16, unsigned, factor 0.01, offset 0, bounds 0 and 300 give
  655.35, clamped to 300.
\<close>

lemma to_physical_scales_then_clamps:
  assumes "min_value signal \<le> max_value signal"
    and "\<not> is_signed \<or>
           (1 \<le> unat (length_sig signal) \<and> unat (length_sig signal) \<le> 63
            \<and> take_bit (unat (length_sig signal)) raw = raw)"
  shows "\<exists>r. Can_SignalToPhysical fa raw signal is_signed = Inr r
           \<and> (let n = (if is_signed \<and> bit raw (unat (length_sig signal) - 1)
                        then uint raw - 2 ^ unat (length_sig signal) else uint raw);
                  p = f_add fa (f_mul fa (f_of_int fa n) (factor signal)) (offset signal)
              in (p < min_value signal \<longrightarrow> r = min_value signal)
               \<and> (p > max_value signal \<longrightarrow> r = max_value signal)
               \<and> (min_value signal \<le> p \<and> p \<le> max_value signal \<longrightarrow> r = p))"
  using assms(1)
  unfolding Can_SignalToPhysical_def numeric_value_defined [OF assms(2)]
  by (auto simp add: range_check_def scaled_value_def Let_def)

lemma to_physical_examples:
  "Can_SignalToPhysical exact_arith 65535
        \<lparr> start_bit = 0, length_sig = 16, factor = 0.01, offset = 0,
          min_value = 0, max_value = 300 \<rparr> False = Inr 300"
  "f_add exact_arith (f_mul exact_arith (f_of_int exact_arith 65535) 0.01) 0 = 655.35"
  "Can_SignalToPhysical exact_arith 0xFF
        \<lparr> start_bit = 0, length_sig = 8, factor = 2, offset = 1,
          min_value = - 10, max_value = 10 \<rparr> True = Inr (- 1)"
  using numeric_value_byte_examples(1)
  by (simp_all add: Can_SignalToPhysical_def numeric_value_unsigned range_check_def
      scaled_value_def exact_arith_def)

text \<open>
  Claim C5 quantifies over every length and signedness, and fails where the integer
  stage is undefined: for the length 64, signed, with bit 63 of the raw value set, the
  claim gives the scaled value of \<open>raw - 2^64 = - 2^63\<close>, clamped, and the program
  evaluates \<^verbatim>\<open>~0ULL << 64\<close> before it scales. It is the defect of claim C4, seen
  through the scaling.
\<close>

theorem to_physical_length_64_undefined:
  "uint (0x8000000000000000 :: 64 word) - 2 ^ 64 = - (2 ^ 63)
   \<and> Can_SignalToPhysical fa 0x8000000000000000 (signal\<lparr>length_sig := 64\<rparr>) True
       \<noteq> Inr (range_check (signal\<lparr>length_sig := 64\<rparr>)
               (scaled_value fa (- (2 ^ 63)) (signal\<lparr>length_sig := 64\<rparr>)))"
  by (simp add: Can_SignalToPhysical_def numeric_value_def signed_value_of_def)

section \<open>What the caller sees of a clamp\<close>

text \<open>
  Claim C6, as stated, fails: \<^verbatim>\<open>Can_SignalToPhysical\<close> returns a \<^verbatim>\<open>float\<close> and nothing
  else. With factor 1, offset 0 and bounds 0 and 300, the raw value 301 is clamped and
  the raw value 300 is not, and both conversions return 300: the result does not tell
  them apart. In the other direction \<^verbatim>\<open>Can_CreateEngineRpmMessage\<close> builds the same
  message for 9000 rpm, which it clamps, and for 8000 rpm, which it does not. (All these
  computations are exact in binary floating point.)
\<close>

theorem clamp_not_observable_counterexample:
  "range_clamped \<lparr> start_bit = 0, length_sig = 16, factor = 1 :: real, offset = 0,
          min_value = 0, max_value = 300 \<rparr>
      (scaled_value exact_arith 301 \<lparr> start_bit = 0, length_sig = 16, factor = 1,
          offset = 0, min_value = 0, max_value = 300 \<rparr>)
   \<and> \<not> range_clamped \<lparr> start_bit = 0, length_sig = 16, factor = 1 :: real, offset = 0,
          min_value = 0, max_value = 300 \<rparr>
      (scaled_value exact_arith 300 \<lparr> start_bit = 0, length_sig = 16, factor = 1,
          offset = 0, min_value = 0, max_value = 300 \<rparr>)
   \<and> Can_SignalToPhysical exact_arith 301 \<lparr> start_bit = 0, length_sig = 16, factor = 1,
          offset = 0, min_value = 0, max_value = 300 \<rparr> False = Inr 300
   \<and> Can_SignalToPhysical exact_arith 300 \<lparr> start_bit = 0, length_sig = 16, factor = 1,
          offset = 0, min_value = 0, max_value = 300 \<rparr> False = Inr 300
   \<and> Can_CreateEngineRpmMessage exact_arith 9000 = Can_CreateEngineRpmMessage exact_arith 8000"
  by (simp add: Can_SignalToPhysical_def numeric_value_def range_check_def range_clamped_def
      scaled_value_def Can_CreateEngineRpmMessage_def exact_arith_def insert_eval)

text \<open>
  Claim C6, amended. The conversion returns the physical value alone, with no clamped
  flag. A clamped conversion returns exactly the bound: \<^verbatim>\<open>min_value\<close> when the scaled
  value was below it, \<^verbatim>\<open>max_value\<close> otherwise. With \<^verbatim>\<open>min_value <= max_value\<close>, a
  conversion whose scaled value equals that bound is not clamped and returns the same
  result.
\<close>

theorem clamped_result_is_bound:
  assumes "numeric_value raw (length_sig signal) is_signed = Inr n"
    and "range_clamped signal (scaled_value fa n signal)"
    and "min_value signal \<le> max_value signal"
    and "numeric_value raw' (length_sig signal) is_signed' = Inr n'"
    and "scaled_value fa n' signal =
           (if scaled_value fa n signal < min_value signal then min_value signal
            else max_value signal)"
  shows "Can_SignalToPhysical fa raw signal is_signed =
           Inr (if scaled_value fa n signal < min_value signal then min_value signal
                else max_value signal)
         \<and> Can_SignalToPhysical fa raw' signal is_signed' = Can_SignalToPhysical fa raw signal is_signed
         \<and> \<not> range_clamped signal (scaled_value fa n' signal)"
  using assms
  by (auto simp add: Can_SignalToPhysical_def range_check_def range_clamped_def)

theorem clamped_result_is_bound_witness:
  "Can_SignalToPhysical exact_arith 301 \<lparr> start_bit = 0, length_sig = 16, factor = 1,
          offset = 0, min_value = 0, max_value = 300 \<rparr> False = Inr 300
   \<and> Can_SignalToPhysical exact_arith 300 \<lparr> start_bit = 0, length_sig = 16, factor = 1,
          offset = 0, min_value = 0, max_value = 300 \<rparr> False =
     Can_SignalToPhysical exact_arith 301 \<lparr> start_bit = 0, length_sig = 16, factor = 1,
          offset = 0, min_value = 0, max_value = 300 \<rparr> False
   \<and> numeric_value 301 16 False = Inr 301 \<and> numeric_value 300 16 False = Inr 300
   \<and> range_clamped \<lparr> start_bit = 0, length_sig = 16, factor = 1 :: real, offset = 0,
          min_value = 0, max_value = 300 \<rparr>
      (scaled_value exact_arith 301 \<lparr> start_bit = 0, length_sig = 16, factor = 1,
          offset = 0, min_value = 0, max_value = 300 \<rparr>)"
proof -
  let ?s = "\<lparr> start_bit = 0, length_sig = 16, factor = 1 :: real,
          offset = 0, min_value = 0, max_value = 300 \<rparr>"
  have n: "numeric_value 301 (length_sig ?s) False = Inr 301"
    by (simp add: numeric_value_def)
  have n': "numeric_value 300 (length_sig ?s) False = Inr 300"
    by (simp add: numeric_value_def)
  have c: "range_clamped ?s (scaled_value exact_arith 301 ?s)"
    by (simp add: range_clamped_def scaled_value_def exact_arith_def)
  have b: "min_value ?s \<le> max_value ?s" by simp
  have e: "scaled_value exact_arith 300 ?s =
      (if scaled_value exact_arith 301 ?s < min_value ?s then min_value ?s else max_value ?s)"
    by (simp add: scaled_value_def exact_arith_def)
  from clamped_result_is_bound [OF n c b n' e] n n' c
  show ?thesis by (simp add: scaled_value_def exact_arith_def)
qed

section \<open>Arithmetic of the addresses\<close>

lemma unat_byte_idx_of: "unat (byte_idx_of bp) = unat bp div 8 mod 256"
  unfolding byte_idx_of_def
  by (simp add: unsigned_ucast_eq take_bit_eq_mod unat_div)

lemma unat_bit_idx_intel: "unat (bit_idx_intel bp) = unat bp mod 8"
  unfolding bit_idx_intel_def
  by (simp add: unsigned_ucast_eq take_bit_eq_mod unat_mod)

lemma unat_bit_pos_intel: "unat (bit_pos_intel sb i) = (unat sb + i) mod 65536"
  unfolding bit_pos_intel_def
  by (simp add: unat_word_ariths unat_of_nat mod_simps)

lemma unat_bit_idx_motorola: "unat (bit_idx_motorola bp) = 7 - unat bp mod 8"
proof -
  have u: "unat (ucast (bp mod 8) :: 8 word) = unat bp mod 8"
    by (simp add: unsigned_ucast_eq take_bit_eq_mod unat_mod)
  moreover have "unat bp mod 8 \<le> 7" by simp
  ultimately have "(ucast (bp mod 8) :: 8 word) \<le> 7"
    by (simp add: word_le_nat_alt)
  then have "unat (7 - ucast (bp mod 8) :: 8 word) = unat (7 :: 8 word) - unat (ucast (bp mod 8) :: 8 word)"
    by (rule unat_sub)
  then show ?thesis
    unfolding bit_idx_motorola_def u by simp
qed

lemma unat_bit_pos_motorola:
  assumes "i \<le> unat sb"
  shows "unat (bit_pos_motorola sb i) = unat sb - i"
  using assms unfolding bit_pos_motorola_def
  by (simp add: le_unat_uoi unat_sub word_le_nat_alt)

lemma high_bits_clear:
  fixes v :: "64 word"
  assumes "unat v < 2 ^ n" and "n \<le> j"
  shows "\<not> bit v j"
proof -
  have "take_bit n (unat v) = unat v"
    using assms(1) by (simp add: take_bit_nat_eq_self_iff)
  then have "\<not> bit (unat v) j"
    using assms(2) by (metis bit_take_bit_iff not_le)
  then show ?thesis
    by (simp add: bit_unsigned_iff)
qed

lemma linear_index_eq:
  fixes p k b :: nat
  assumes "b < 8"
  shows "(p = 8 * k + b) = (p div 8 = k \<and> p mod 8 = b)"
proof
  assume "p = 8 * k + b"
  then show "p div 8 = k \<and> p mod 8 = b" using assms by simp
next
  assume "p div 8 = k \<and> p mod 8 = b"
  then have "8 * (p div 8) + p mod 8 = 8 * k + b" by simp
  then show "p = 8 * k + b" by simp
qed

lemma bit_set_byte:
  fixes x :: "8 word"
  assumes "b < 8"
  shows "bit (x OR 2 ^ b) c = (c = b \<or> bit x c)"
  using assms by (auto simp add: bit_or_iff bit_exp_iff)

lemma bit_clear_byte:
  fixes x :: "8 word"
  assumes "b < 8"
  shows "bit (x AND NOT (2 ^ b)) c = (c \<noteq> b \<and> bit x c)"
  using assms by (auto simp add: bit_and_iff bit_not_iff bit_exp_iff dest: bit_imp_le_length)

lemma mirror_less:
  fixes q :: nat
  assumes "q < 64"
  shows "8 * (q div 8) + (7 - q mod 8) < 64"
proof -
  have "q div 8 < 8" using assms by simp
  then show ?thesis by linarith
qed

lemma div_mod_linear:
  fixes a c :: nat
  assumes "c < 8"
  shows "(8 * a + c) div 8 = a" and "(8 * a + c) mod 8 = c"
  using assms by simp_all

lemma mirror_inj:
  fixes q r :: nat
  assumes "8 * (q div 8) + (7 - q mod 8) = 8 * (r div 8) + (7 - r mod 8)"
  shows "q = r"
proof -
  have cq: "7 - q mod 8 < 8" and cr: "7 - r mod 8 < 8" by linarith+
  have "(8 * (q div 8) + (7 - q mod 8)) div 8 = (8 * (r div 8) + (7 - r mod 8)) div 8"
    using assms by (rule arg_cong)
  then have d: "q div 8 = r div 8"
    by (simp only: div_mod_linear(1) [OF cq] div_mod_linear(1) [OF cr])
  have "(8 * (q div 8) + (7 - q mod 8)) mod 8 = (8 * (r div 8) + (7 - r mod 8)) mod 8"
    using assms by (rule arg_cong)
  then have "7 - q mod 8 = 7 - r mod 8"
    by (simp only: div_mod_linear(2) [OF cq] div_mod_linear(2) [OF cr])
  moreover have "q mod 8 \<le> 7" "r mod 8 \<le> 7" by simp_all
  ultimately have m: "q mod 8 = r mod 8" by linarith
  have "q = 8 * (q div 8) + q mod 8" by simp
  also have "\<dots> = 8 * (r div 8) + r mod 8" using d m by simp
  also have "\<dots> = r" by simp
  finally show ?thesis .
qed

lemma byte_idx_intel_in_range:
  assumes "unat sb + i < 64"
  shows "unat (byte_idx_of (bit_pos_intel sb i)) < 8"
  using assms by (simp add: unat_byte_idx_of unat_bit_pos_intel)

lemma byte_idx_motorola_in_range:
  assumes "i \<le> unat sb" and "unat sb < 64"
  shows "unat (byte_idx_of (bit_pos_motorola sb i)) < 8"
  using assms by (simp add: unat_byte_idx_of unat_bit_pos_motorola)

lemma bit_idx_intel_less: "unat (bit_idx_intel bp) < 8"
  by (simp add: unat_bit_idx_intel)

lemma bit_idx_motorola_less: "unat (bit_idx_motorola bp) < 8"
  by (simp add: unat_bit_idx_motorola)

lemma addressed_bit_intel:
  assumes "unat sb + i < 64"
  shows "addressed_bit sb False i = unat sb + i"
  using assms by (simp add: addressed_bit_def unat_byte_idx_of unat_bit_pos_intel unat_bit_idx_intel)

lemma addressed_bit_motorola:
  assumes "i \<le> unat sb" and "unat sb < 64"
  shows "addressed_bit sb True i = 8 * ((unat sb - i) div 8) + (7 - (unat sb - i) mod 8)"
  using assms
  by (simp add: addressed_bit_def unat_byte_idx_of unat_bit_pos_motorola unat_bit_idx_motorola)

lemma addressed_bit_inj:
  assumes "field_in_payload sb len motorola" and "i < unat len" and "j < unat len"
    and "addressed_bit sb motorola i = addressed_bit sb motorola j"
  shows "i = j"
proof (cases motorola)
  case False
  then show ?thesis
    using assms by (simp add: field_in_payload_def addressed_bit_intel)
next
  case True
  then have r: "i \<le> unat sb" "j \<le> unat sb" "unat sb < 64"
    using assms(1,2,3) by (simp_all add: field_in_payload_def)
  have "addressed_bit sb True i = addressed_bit sb True j"
    using assms(4) True by simp
  then have "8 * ((unat sb - i) div 8) + (7 - (unat sb - i) mod 8)
      = 8 * ((unat sb - j) div 8) + (7 - (unat sb - j) mod 8)"
    by (simp only: addressed_bit_motorola [OF r(1) r(3)] addressed_bit_motorola [OF r(2) r(3)])
  then have "unat sb - i = unat sb - j" by (rule mirror_inj)
  then show ?thesis using r by linarith
qed

lemma addressed_bit_less:
  assumes "field_in_payload sb len motorola" and "i < unat len"
  shows "addressed_bit sb motorola i < 64"
proof (cases motorola)
  case False
  then show ?thesis
    using assms by (simp add: field_in_payload_def addressed_bit_intel)
next
  case True
  then have r: "i \<le> unat sb" "unat sb < 64"
    using assms by (simp_all add: field_in_payload_def)
  then have e: "addressed_bit sb True i = 8 * ((unat sb - i) div 8) + (7 - (unat sb - i) mod 8)"
    by (rule addressed_bit_motorola)
  have "unat sb - i < 64" using r by linarith
  then have "8 * ((unat sb - i) div 8) + (7 - (unat sb - i) mod 8) < 64"
    by (rule mirror_less)
  then show ?thesis using True e by simp
qed

section \<open>One step of insertion\<close>

lemma payload_bit_update:
  assumes "k < length d" and "b < 8"
  shows "payload_bit (d[k := x]) p =
           (if p div 8 = k then bit x (p mod 8) else payload_bit d p)"
  using assms by (simp add: payload_bit_def)

lemma set_or_clear_bits:
  assumes "unat byte_idx < 8" and "unat bit_idx < 8" and "length d = 8"
  shows "\<exists>d'. set_or_clear d byte_idx bit_idx v = Inr d' \<and> length d' = 8
           \<and> (\<forall>p. payload_bit d' p =
                 (if p = 8 * unat byte_idx + unat bit_idx then v else payload_bit d p))"
proof (cases v)
  case True
  let ?d' = "d[unat byte_idx := d ! unat byte_idx OR 2 ^ unat bit_idx]"
  have "set_or_clear d byte_idx bit_idx v = Inr ?d'"
    using assms(1) True by (simp add: set_or_clear_def)
  moreover have "payload_bit ?d' p =
      (if p = 8 * unat byte_idx + unat bit_idx then v else payload_bit d p)" for p
  proof -
    have k: "unat byte_idx < length d" using assms(1,3) by simp
    show ?thesis
      unfolding payload_bit_update [OF k assms(2)] linear_index_eq [OF assms(2)]
        bit_set_byte [OF assms(2)]
      using True by (auto simp add: payload_bit_def)
  qed
  ultimately show ?thesis using assms(3) by simp
next
  case False
  let ?d' = "d[unat byte_idx := d ! unat byte_idx AND NOT (2 ^ unat bit_idx)]"
  have "set_or_clear d byte_idx bit_idx v = Inr ?d'"
    using assms(1) False by (simp add: set_or_clear_def)
  moreover have "payload_bit ?d' p =
      (if p = 8 * unat byte_idx + unat bit_idx then v else payload_bit d p)" for p
  proof -
    have k: "unat byte_idx < length d" using assms(1,3) by simp
    show ?thesis
      unfolding payload_bit_update [OF k assms(2)] linear_index_eq [OF assms(2)]
        bit_clear_byte [OF assms(2)]
      using False by (auto simp add: payload_bit_def)
  qed
  ultimately show ?thesis using assms(3) by simp
qed


section \<open>The insertion loops\<close>

lemma addressed_bit_intel_unfold:
  "addressed_bit sb False i =
     8 * unat (byte_idx_of (bit_pos_intel sb i)) + unat (bit_idx_intel (bit_pos_intel sb i))"
  by (simp add: addressed_bit_def)

lemma addressed_bit_motorola_unfold:
  "addressed_bit sb True i =
     8 * unat (byte_idx_of (bit_pos_motorola sb i)) + unat (bit_idx_motorola (bit_pos_motorola sb i))"
  by (simp add: addressed_bit_def)

lemma insert_intel_body_bits:
  assumes "length d = 8" and "field_in_payload sb len False" and "i < unat len"
  shows "\<exists>d'. insert_intel_body d sb v i = Inr d' \<and> length d' = 8
           \<and> (\<forall>p. payload_bit d' p =
                 (if p = addressed_bit sb False i then bit v i else payload_bit d p))"
proof -
  have r: "unat sb + i < 64" "\<not> 64 \<le> i"
    using assms(2,3) by (simp_all add: field_in_payload_def)
  have k: "unat (byte_idx_of (bit_pos_intel sb i)) < 8"
    using r(1) by (rule byte_idx_intel_in_range)
  have b: "unat (bit_idx_intel (bit_pos_intel sb i)) < 8"
    by (rule bit_idx_intel_less)
  show ?thesis
    unfolding insert_intel_body_def Let_def addressed_bit_intel_unfold
    using set_or_clear_bits [OF k b assms(1), of "bit v i"] r(2) by simp
qed

lemma insert_motorola_body_bits:
  assumes "length d = 8" and "field_in_payload sb len True" and "i < unat len"
  shows "\<exists>d'. insert_motorola_body d sb len v i = Inr d' \<and> length d' = 8
           \<and> (\<forall>p. payload_bit d' p =
                 (if p = addressed_bit sb True i then bit v (unat len - 1 - i)
                  else payload_bit d p))"
proof -
  have f: "unat len \<le> unat sb + 1" "unat sb < 64"
    using assms(2) by (simp_all add: field_in_payload_def)
  have r: "i \<le> unat sb" "unat sb < 64" "\<not> 64 \<le> unat len - 1 - i"
    using f assms(3) by linarith+
  have k: "unat (byte_idx_of (bit_pos_motorola sb i)) < 8"
    using r(1,2) by (rule byte_idx_motorola_in_range)
  have b: "unat (bit_idx_motorola (bit_pos_motorola sb i)) < 8"
    by (rule bit_idx_motorola_less)
  show ?thesis
    unfolding insert_motorola_body_def Let_def addressed_bit_motorola_unfold
    using set_or_clear_bits [OF k b assms(1), of "bit v (unat len - 1 - i)"] r(3)
    by (simp only: if_False)
qed

lemma insert_intel_inv:
  "field_in_payload sb len False \<Longrightarrow> length d = 8 \<Longrightarrow>
   \<exists>d'. insert_intel d sb len v i = Inr d' \<and> length d' = 8
     \<and> (\<forall>j. i \<le> j \<and> j < unat len \<longrightarrow> payload_bit d' (addressed_bit sb False j) = bit v j)
     \<and> (\<forall>p. (\<forall>j. i \<le> j \<and> j < unat len \<longrightarrow> p \<noteq> addressed_bit sb False j)
            \<longrightarrow> payload_bit d' p = payload_bit d p)"
proof (induction d sb len v i rule: insert_intel.induct)
  case (1 d sb len v i)
  show ?case
  proof (cases "i < unat len")
    case False
    then have "insert_intel d sb len v i = Inr d"
      by (simp add: insert_intel.simps)
    moreover have "\<not> (i \<le> j \<and> j < unat len)" for j
      using False by linarith
    ultimately show ?thesis using "1.prems"(2) by blast
  next
    case True
    obtain d1 where body: "insert_intel_body d sb v i = Inr d1"
      and len1: "length d1 = 8"
      and bits1: "\<And>p. payload_bit d1 p =
                    (if p = addressed_bit sb False i then bit v i else payload_bit d p)"
      using insert_intel_body_bits [OF "1.prems"(2) "1.prems"(1) True] by blast
    obtain d' where run: "insert_intel d1 sb len v (i + 1) = Inr d'"
      and len': "length d' = 8"
      and inside: "\<And>j. i + 1 \<le> j \<Longrightarrow> j < unat len \<Longrightarrow>
                     payload_bit d' (addressed_bit sb False j) = bit v j"
      and outside: "\<And>p. (\<And>j. i + 1 \<le> j \<Longrightarrow> j < unat len \<Longrightarrow> p \<noteq> addressed_bit sb False j)
                     \<Longrightarrow> payload_bit d' p = payload_bit d1 p"
      using "1.IH" [OF True body "1.prems"(1) len1] by blast
    have step: "insert_intel d sb len v i = Inr d'"
      using True body run by (simp add: insert_intel.simps [of d])
    have at_i: "payload_bit d' (addressed_bit sb False i) = bit v i"
    proof -
      have "addressed_bit sb False i \<noteq> addressed_bit sb False j"
        if "i + 1 \<le> j" and "j < unat len" for j
        using addressed_bit_inj [OF "1.prems"(1) True that(2)] that(1) by auto
      then have "payload_bit d' (addressed_bit sb False i) = payload_bit d1 (addressed_bit sb False i)"
        by (rule outside)
      then show ?thesis by (simp add: bits1)
    qed
    have in_all: "payload_bit d' (addressed_bit sb False j) = bit v j"
      if "i \<le> j" and "j < unat len" for j
    proof (cases "j = i")
      case True
      then show ?thesis using at_i by simp
    next
      case False
      then have "i + 1 \<le> j" using that(1) by simp
      then show ?thesis using that(2) by (rule inside)
    qed
    have out_all: "payload_bit d' p = payload_bit d p"
      if "\<And>j. i \<le> j \<Longrightarrow> j < unat len \<Longrightarrow> p \<noteq> addressed_bit sb False j" for p
    proof -
      have "p \<noteq> addressed_bit sb False i" using that [of i] True by simp
      then have "payload_bit d1 p = payload_bit d p" by (simp add: bits1)
      moreover have "payload_bit d' p = payload_bit d1 p"
        by (rule outside) (simp add: that)
      ultimately show ?thesis by simp
    qed
    show ?thesis using step len' in_all out_all by blast
  qed
qed

lemma insert_motorola_inv:
  "field_in_payload sb len True \<Longrightarrow> length d = 8 \<Longrightarrow>
   \<exists>d'. insert_motorola d sb len v i = Inr d' \<and> length d' = 8
     \<and> (\<forall>j. i \<le> j \<and> j < unat len \<longrightarrow>
            payload_bit d' (addressed_bit sb True j) = bit v (unat len - 1 - j))
     \<and> (\<forall>p. (\<forall>j. i \<le> j \<and> j < unat len \<longrightarrow> p \<noteq> addressed_bit sb True j)
            \<longrightarrow> payload_bit d' p = payload_bit d p)"
proof (induction d sb len v i rule: insert_motorola.induct)
  case (1 d sb len v i)
  show ?case
  proof (cases "i < unat len")
    case False
    then have "insert_motorola d sb len v i = Inr d"
      by (simp add: insert_motorola.simps)
    moreover have "\<not> (i \<le> j \<and> j < unat len)" for j
      using False by linarith
    ultimately show ?thesis using "1.prems"(2) by blast
  next
    case True
    obtain d1 where body: "insert_motorola_body d sb len v i = Inr d1"
      and len1: "length d1 = 8"
      and bits1: "\<And>p. payload_bit d1 p =
                    (if p = addressed_bit sb True i then bit v (unat len - 1 - i)
                     else payload_bit d p)"
      using insert_motorola_body_bits [OF "1.prems"(2) "1.prems"(1) True] by blast
    obtain d' where run: "insert_motorola d1 sb len v (i + 1) = Inr d'"
      and len': "length d' = 8"
      and inside: "\<And>j. i + 1 \<le> j \<Longrightarrow> j < unat len \<Longrightarrow>
                     payload_bit d' (addressed_bit sb True j) = bit v (unat len - 1 - j)"
      and outside: "\<And>p. (\<And>j. i + 1 \<le> j \<Longrightarrow> j < unat len \<Longrightarrow> p \<noteq> addressed_bit sb True j)
                     \<Longrightarrow> payload_bit d' p = payload_bit d1 p"
      using "1.IH" [OF True body "1.prems"(1) len1] by blast
    have step: "insert_motorola d sb len v i = Inr d'"
      using True body run by (simp add: insert_motorola.simps [of d])
    have at_i: "payload_bit d' (addressed_bit sb True i) = bit v (unat len - 1 - i)"
    proof -
      have "addressed_bit sb True i \<noteq> addressed_bit sb True j"
        if "i + 1 \<le> j" and "j < unat len" for j
        using addressed_bit_inj [OF "1.prems"(1) True that(2)] that(1) by auto
      then have "payload_bit d' (addressed_bit sb True i) = payload_bit d1 (addressed_bit sb True i)"
        by (rule outside)
      then show ?thesis by (simp add: bits1)
    qed
    have in_all: "payload_bit d' (addressed_bit sb True j) = bit v (unat len - 1 - j)"
      if "i \<le> j" and "j < unat len" for j
    proof (cases "j = i")
      case True
      then show ?thesis using at_i by simp
    next
      case False
      then have "i + 1 \<le> j" using that(1) by simp
      then show ?thesis using that(2) by (rule inside)
    qed
    have out_all: "payload_bit d' p = payload_bit d p"
      if "\<And>j. i \<le> j \<Longrightarrow> j < unat len \<Longrightarrow> p \<noteq> addressed_bit sb True j" for p
    proof -
      have "p \<noteq> addressed_bit sb True i" using that [of i] True by simp
      then have "payload_bit d1 p = payload_bit d p" by (simp add: bits1)
      moreover have "payload_bit d' p = payload_bit d1 p"
        by (rule outside) (simp add: that)
      ultimately show ?thesis by simp
    qed
    show ?thesis using step len' in_all out_all by blast
  qed
qed

lemma insert_bits:
  assumes "length (data msg) = 8" and "field_in_payload sb len motorola"
  shows "\<exists>msg'. Can_InsertSignal msg sb len v motorola = Inr msg' \<and> length (data msg') = 8
     \<and> (\<forall>j < unat len. payload_bit (data msg') (addressed_bit sb motorola j) =
            bit v (if motorola then unat len - 1 - j else j))
     \<and> (\<forall>p. (\<forall>j < unat len. p \<noteq> addressed_bit sb motorola j)
            \<longrightarrow> payload_bit (data msg') p = payload_bit (data msg) p)"
proof (cases motorola)
  case True
  then have f: "field_in_payload sb len True" using assms(2) by simp
  from insert_motorola_inv [OF f assms(1), of v 0]
  show ?thesis unfolding Can_InsertSignal_def using True by auto
next
  case False
  then have f: "field_in_payload sb len False" using assms(2) by simp
  from insert_intel_inv [OF f assms(1), of v 0]
  show ?thesis unfolding Can_InsertSignal_def using False by auto
qed

section \<open>The extraction loops\<close>

lemma bit_set_word:
  fixes raw :: "64 word"
  assumes "k < 64"
  shows "bit (raw OR push_bit k 1) j = (j = k \<or> bit raw j)"
  using assms by (auto simp add: bit_or_iff bit_exp_iff)

lemma payload_bit_addressed_intel:
  "payload_bit d (addressed_bit sb False i) =
     bit (d ! unat (byte_idx_of (bit_pos_intel sb i))) (unat (bit_idx_intel (bit_pos_intel sb i)))"
  unfolding payload_bit_def addressed_bit_intel_unfold
  by (simp only: div_mod_linear [OF bit_idx_intel_less])

lemma payload_bit_addressed_motorola:
  "payload_bit d (addressed_bit sb True i) =
     bit (d ! unat (byte_idx_of (bit_pos_motorola sb i)))
       (unat (bit_idx_motorola (bit_pos_motorola sb i)))"
  unfolding payload_bit_def addressed_bit_motorola_unfold
  by (simp only: div_mod_linear [OF bit_idx_motorola_less])

lemma extract_intel_body_value:
  assumes "field_in_payload sb len False" and "i < unat len"
  shows "extract_intel_body d sb i raw =
           Inr (if payload_bit d (addressed_bit sb False i) then raw OR push_bit i 1 else raw)"
proof -
  have r: "unat sb + i < 64" "\<not> 64 \<le> i"
    using assms by (simp_all add: field_in_payload_def)
  have k: "\<not> 8 \<le> unat (byte_idx_of (bit_pos_intel sb i))"
    using byte_idx_intel_in_range [OF r(1)] by simp
  show ?thesis
    unfolding extract_intel_body_def Let_def payload_bit_addressed_intel
    using k r(2) by (simp only: if_False split: if_splits) simp
qed

lemma extract_motorola_body_value:
  assumes "field_in_payload sb len True" and "i < unat len"
  shows "extract_motorola_body d sb len i raw =
           Inr (if payload_bit d (addressed_bit sb True i)
                then raw OR push_bit (unat len - 1 - i) 1 else raw)"
proof -
  have f: "unat len \<le> unat sb + 1" "unat sb < 64"
    using assms(1) by (simp_all add: field_in_payload_def)
  have r: "i \<le> unat sb" "unat sb < 64" "\<not> 64 \<le> unat len - 1 - i"
    using f assms(2) by linarith+
  have k: "\<not> 8 \<le> unat (byte_idx_of (bit_pos_motorola sb i))"
    using byte_idx_motorola_in_range [OF r(1,2)] by simp
  show ?thesis
    unfolding extract_motorola_body_def Let_def payload_bit_addressed_motorola
    using k r(3) by (simp only: if_False split: if_splits) simp
qed

lemma extract_intel_inv:
  "field_in_payload sb len False \<Longrightarrow> (\<forall>j. i \<le> j \<longrightarrow> \<not> bit raw j) \<Longrightarrow>
   \<exists>w. extract_intel d sb len i raw = Inr w
     \<and> (\<forall>j. bit w j = (if i \<le> j \<and> j < unat len
                        then payload_bit d (addressed_bit sb False j) else bit raw j))"
proof (induction d sb len i raw rule: extract_intel.induct)
  case (1 d sb len i raw)
  show ?case
  proof (cases "i < unat len")
    case False
    then have "extract_intel d sb len i raw = Inr raw"
      by (simp add: extract_intel.simps)
    moreover have "\<not> (i \<le> j \<and> j < unat len)" for j
      using False by linarith
    ultimately show ?thesis by auto
  next
    case True
    let ?raw' = "if payload_bit d (addressed_bit sb False i) then raw OR push_bit i 1 else raw"
    have i64: "i < 64"
      using "1.prems"(1) True by (simp add: field_in_payload_def)
    have body: "extract_intel_body d sb i raw = Inr ?raw'"
      using "1.prems"(1) True by (rule extract_intel_body_value)
    have bits': "bit ?raw' j = (if j = i then payload_bit d (addressed_bit sb False i) else bit raw j)"
      for j
      using "1.prems"(2) by (auto simp only: bit_set_word [OF i64] split: if_splits)
    then have clear': "\<forall>j. i + 1 \<le> j \<longrightarrow> \<not> bit ?raw' j"
      using "1.prems"(2) by simp
    obtain w where run: "extract_intel d sb len (i + 1) ?raw' = Inr w"
      and bits: "\<And>j. bit w j = (if i + 1 \<le> j \<and> j < unat len
                        then payload_bit d (addressed_bit sb False j) else bit ?raw' j)"
      using "1.IH" [OF True body "1.prems"(1) clear'] by blast
    have step: "extract_intel d sb len i raw = Inr w"
      using True body run by (simp add: extract_intel.simps [of d sb len i])
    have "bit w j = (if i \<le> j \<and> j < unat len
                        then payload_bit d (addressed_bit sb False j) else bit raw j)" for j
      unfolding bits bits' using True by (cases "j = i") auto
    then show ?thesis using step by blast
  qed
qed

lemma extract_motorola_inv:
  "field_in_payload sb len True \<Longrightarrow> (\<forall>m. m < unat len - i \<longrightarrow> \<not> bit raw m) \<Longrightarrow>
   \<exists>w. extract_motorola d sb len i raw = Inr w
     \<and> (\<forall>m. bit w m = (if m < unat len - i
                        then payload_bit d (addressed_bit sb True (unat len - 1 - m))
                        else bit raw m))"
proof (induction d sb len i raw rule: extract_motorola.induct)
  case (1 d sb len i raw)
  show ?case
  proof (cases "i < unat len")
    case False
    then have "extract_motorola d sb len i raw = Inr raw"
      by (simp add: extract_motorola.simps)
    moreover have "\<not> m < unat len - i" for m
      using False by linarith
    ultimately show ?thesis by simp
  next
    case True
    let ?k = "unat len - 1 - i"
    let ?raw' = "if payload_bit d (addressed_bit sb True i) then raw OR push_bit ?k 1 else raw"
    have "unat len \<le> unat sb + 1" "unat sb < 64"
      using "1.prems"(1) by (simp_all add: field_in_payload_def)
    then have k64: "?k < 64"
      using True by linarith
    have body: "extract_motorola_body d sb len i raw = Inr ?raw'"
      using "1.prems"(1) True by (rule extract_motorola_body_value)
    have kclear: "\<not> bit raw ?k"
      using "1.prems"(2) True by simp
    have bits': "bit ?raw' m = (if m = ?k then payload_bit d (addressed_bit sb True i) else bit raw m)"
      for m
      using kclear by (auto simp only: bit_set_word [OF k64] split: if_splits)
    have clear': "\<forall>m. m < unat len - (i + 1) \<longrightarrow> \<not> bit ?raw' m"
      unfolding bits' using "1.prems"(2) by auto
    obtain w where run: "extract_motorola d sb len (i + 1) ?raw' = Inr w"
      and bits: "\<And>m. bit w m = (if m < unat len - (i + 1)
                        then payload_bit d (addressed_bit sb True (unat len - 1 - m))
                        else bit ?raw' m)"
      using "1.IH" [OF True body "1.prems"(1) clear'] by blast
    have step: "extract_motorola d sb len i raw = Inr w"
      using True body run by (simp add: extract_motorola.simps [of d sb len i])
    have "bit w m = (if m < unat len - i
                        then payload_bit d (addressed_bit sb True (unat len - 1 - m))
                        else bit raw m)" for m
    proof (cases "m = ?k")
      case True
      then have "unat len - 1 - m = i" using \<open>i < unat len\<close> by simp
      then show ?thesis unfolding bits bits' using True \<open>i < unat len\<close> by auto
    next
      case False
      then show ?thesis unfolding bits bits' using \<open>i < unat len\<close> by auto
    qed
    then show ?thesis using step by blast
  qed
qed

lemma extract_bits:
  assumes "field_in_payload sb len motorola"
  shows "\<exists>w. Can_ExtractSignal msg sb len motorola = Inr w
     \<and> (\<forall>m. bit w m = (m < unat len \<and>
            payload_bit (data msg) (addressed_bit sb motorola (if motorola then unat len - 1 - m else m))))"
proof (cases motorola)
  case True
  then have f: "field_in_payload sb len True" using assms by simp
  from extract_motorola_inv [OF f, of 0 0 "data msg"]
  show ?thesis unfolding Can_ExtractSignal_def using True by auto
next
  case False
  then have f: "field_in_payload sb len False" using assms by simp
  from extract_intel_inv [OF f, of 0 0 "data msg"]
  show ?thesis unfolding Can_ExtractSignal_def using False by auto
qed

section \<open>Non-interference of insertion\<close>

text \<open>
  Claim C3. For every message with an 8-byte payload, every geometry whose field lies
  within the payload and every value, \<^verbatim>\<open>Can_InsertSignal\<close> returns, and every payload
  bit whose linear index is not one of the bits that the loop addresses (bit
  \<^verbatim>\<open>bit_idx\<close> of byte \<^verbatim>\<open>byte_idx\<close>, for \<open>i\<close> below the length) has the value it had
  before the call.
\<close>

theorem insert_preserves_other_bits:
  assumes "length (data msg) = 8" and "field_in_payload sb len motorola"
  shows "\<exists>msg'. Can_InsertSignal msg sb len v motorola = Inr msg'
           \<and> (\<forall>p<64. (\<forall>i<unat len. p \<noteq> addressed_bit sb motorola i)
                  \<longrightarrow> payload_bit (data msg') p = payload_bit (data msg) p)"
  using insert_bits [OF assms, of v] by blast

theorem insert_preserves_other_bits_witness:
  "length (data \<lparr> id_msg = 0x123, dlc = 8,
       data = [0xFF, 0xFF, 0xFF, 0xFF, 0xFF, 0xFF, 0xFF, 0xFF],
       extended_id = False, rtr = False \<rparr>) = 8
   \<and> field_in_payload 4 8 False
   \<and> Can_InsertSignal \<lparr> id_msg = 0x123, dlc = 8,
         data = [0xFF, 0xFF, 0xFF, 0xFF, 0xFF, 0xFF, 0xFF, 0xFF],
         extended_id = False, rtr = False \<rparr> 4 8 0 False
       = Inr \<lparr> id_msg = 0x123, dlc = 8,
               data = [0x0F, 0xF0, 0xFF, 0xFF, 0xFF, 0xFF, 0xFF, 0xFF],
               extended_id = False, rtr = False \<rparr>
   \<and> payload_bit [0x0F, 0xF0, 0xFF, 0xFF, 0xFF, 0xFF, 0xFF, 0xFF] 3
       = payload_bit [0xFF, 0xFF, 0xFF, 0xFF, 0xFF, 0xFF, 0xFF, 0xFF] 3"
proof -
  let ?m = "\<lparr> id_msg = 0x123, dlc = 8,
       data = [0xFF, 0xFF, 0xFF, 0xFF, 0xFF, 0xFF, 0xFF, 0xFF],
       extended_id = False, rtr = False \<rparr>"
  have l: "length (data ?m) = 8" by simp
  have f: "field_in_payload 4 8 False" by (simp add: field_in_payload_def)
  have run: "Can_InsertSignal ?m 4 8 0 False
       = Inr \<lparr> id_msg = 0x123, dlc = 8,
               data = [0x0F, 0xF0, 0xFF, 0xFF, 0xFF, 0xFF, 0xFF, 0xFF],
               extended_id = False, rtr = False \<rparr>"
    by (simp add: insert_eval)
  have out: "\<forall>i<unat (8 :: 8 word). (3::nat) \<noteq> addressed_bit 4 False i"
    by (simp add: addressed_bit_intel)
  from insert_preserves_other_bits [OF l f, of 0] run out
  have "payload_bit [0x0F, 0xF0, 0xFF, 0xFF, 0xFF, 0xFF, 0xFF, 0xFF] 3
       = payload_bit [0xFF, 0xFF, 0xFF, 0xFF, 0xFF, 0xFF, 0xFF, 0xFF] 3"
    by auto
  then show ?thesis using l f run by simp
qed

section \<open>Round trip\<close>

text \<open>
  Claim C1. For every geometry whose field lies within the 8-byte payload (so the
  length is at most 64), in Intel and in Motorola order, and every value below
  \<open>2^length\<close>, extraction after insertion with the same geometry returns the value.
  The payload before the insertion may be any payload, the zeroed one of the claim
  included (it is the one of the witness).
\<close>

theorem insert_extract_roundtrip:
  assumes "length (data msg) = 8" and "field_in_payload sb len motorola"
    and "unat v < 2 ^ unat len"
  shows "\<exists>msg'. Can_InsertSignal msg sb len v motorola = Inr msg'
           \<and> Can_ExtractSignal msg' sb len motorola = Inr v"
proof -
  obtain msg' where ins: "Can_InsertSignal msg sb len v motorola = Inr msg'"
    and inside: "\<And>j. j < unat len \<Longrightarrow>
       payload_bit (data msg') (addressed_bit sb motorola j) =
         bit v (if motorola then unat len - 1 - j else j)"
    using insert_bits [OF assms(1,2), of v] by blast
  obtain w where ext: "Can_ExtractSignal msg' sb len motorola = Inr w"
    and bits: "\<And>m. bit w m = (m < unat len \<and>
       payload_bit (data msg')
         (addressed_bit sb motorola (if motorola then unat len - 1 - m else m)))"
    using extract_bits [OF assms(2), of msg'] by blast
  have "bit w m = bit v m" for m
  proof (cases "m < unat len")
    case True
    then have "(if motorola then unat len - 1 - m else m) < unat len" by simp
    then have "payload_bit (data msg')
         (addressed_bit sb motorola (if motorola then unat len - 1 - m else m)) = bit v m"
      using True by (simp add: inside)
    then show ?thesis using True by (simp add: bits)
  next
    case False
    then have "\<not> bit v m"
      using high_bits_clear [OF assms(3), of m] by simp
    then show ?thesis using False by (simp add: bits)
  qed
  then have "w = v" by (rule bit_eqI)
  then show ?thesis using ins ext by simp
qed

theorem insert_extract_roundtrip_witness:
  "length (data \<lparr> id_msg = 0x123, dlc = 8, data = [0, 0, 0, 0, 0, 0, 0, 0],
       extended_id = False, rtr = False \<rparr>) = 8
   \<and> field_in_payload 15 16 True
   \<and> unat (0x1234 :: 64 word) < 2 ^ unat (16 :: 8 word)
   \<and> Can_InsertSignal \<lparr> id_msg = 0x123, dlc = 8, data = [0, 0, 0, 0, 0, 0, 0, 0],
         extended_id = False, rtr = False \<rparr> 15 16 0x1234 True
       = Inr \<lparr> id_msg = 0x123, dlc = 8, data = [0x2C, 0x48, 0, 0, 0, 0, 0, 0],
               extended_id = False, rtr = False \<rparr>
   \<and> Can_ExtractSignal \<lparr> id_msg = 0x123, dlc = 8, data = [0x2C, 0x48, 0, 0, 0, 0, 0, 0],
         extended_id = False, rtr = False \<rparr> 15 16 True = Inr 0x1234"
proof -
  let ?m = "\<lparr> id_msg = 0x123, dlc = 8, data = [0, 0, 0, 0, 0, 0, 0, 0],
       extended_id = False, rtr = False \<rparr>"
  have l: "length (data ?m) = 8" by simp
  have f: "field_in_payload 15 16 True" by (simp add: field_in_payload_def)
  have v: "unat (0x1234 :: 64 word) < 2 ^ unat (16 :: 8 word)" by simp
  have run: "Can_InsertSignal ?m 15 16 0x1234 True
       = Inr \<lparr> id_msg = 0x123, dlc = 8, data = [0x2C, 0x48, 0, 0, 0, 0, 0, 0],
               extended_id = False, rtr = False \<rparr>"
    by (simp add: insert_eval)
  from insert_extract_roundtrip [OF l f v] run l f v show ?thesis by simp
qed

section \<open>When a call returns\<close>

lemma from_next:
  fixes i :: nat
  assumes "P i"
  shows "(\<forall>j. i \<le> j \<and> j < n \<longrightarrow> P j) = (\<forall>j. i + 1 \<le> j \<and> j < n \<longrightarrow> P j)"
proof
  assume "\<forall>j. i \<le> j \<and> j < n \<longrightarrow> P j"
  then show "\<forall>j. i + 1 \<le> j \<and> j < n \<longrightarrow> P j" by simp
next
  assume a: "\<forall>j. i + 1 \<le> j \<and> j < n \<longrightarrow> P j"
  show "\<forall>j. i \<le> j \<and> j < n \<longrightarrow> P j"
  proof (intro allI impI)
    fix j assume "i \<le> j \<and> j < n"
    then show "P j" using a assms by (cases "j = i") auto
  qed
qed

lemma extract_intel_body_returns:
  assumes "i < 64"
  shows "(\<exists>r. extract_intel_body d sb i raw = Inr r) = (byte_index sb False i < 8)"
  using assms by (simp add: extract_intel_body_def byte_index_def Let_def)

lemma extract_motorola_body_returns:
  assumes "unat len \<le> 64"
  shows "(\<exists>r. extract_motorola_body d sb len i raw = Inr r) = (byte_index sb True i < 8)"
proof -
  have "\<not> 64 \<le> unat len - 1 - i" using assms by linarith
  then show ?thesis
    by (simp add: extract_motorola_body_def byte_index_def Let_def)
qed

lemma insert_intel_body_returns:
  assumes "i < 64"
  shows "(\<exists>r. insert_intel_body d sb v i = Inr r) = (byte_index sb False i < 8)"
  using assms by (simp add: insert_intel_body_def set_or_clear_def byte_index_def Let_def)

lemma insert_motorola_body_returns:
  assumes "unat len \<le> 64"
  shows "(\<exists>r. insert_motorola_body d sb len v i = Inr r) = (byte_index sb True i < 8)"
proof -
  have "\<not> 64 \<le> unat len - 1 - i" using assms by linarith
  then show ?thesis
    by (simp add: insert_motorola_body_def set_or_clear_def byte_index_def Let_def)
qed

lemma extract_intel_returns:
  "unat len \<le> 64 \<Longrightarrow>
   (\<exists>w. extract_intel d sb len i raw = Inr w) =
     (\<forall>j. i \<le> j \<and> j < unat len \<longrightarrow> byte_index sb False j < 8)"
proof (induction d sb len i raw rule: extract_intel.induct)
  case (1 d sb len i raw)
  show ?case
  proof (cases "i < unat len")
    case False
    then have "extract_intel d sb len i raw = Inr raw"
      by (simp add: extract_intel.simps)
    moreover have "\<not> (i \<le> j \<and> j < unat len)" for j
      using False by linarith
    ultimately show ?thesis by auto
  next
    case True
    then have i64: "i < 64" using "1.prems" by linarith
    show ?thesis
    proof (cases "extract_intel_body d sb i raw")
      case (Inl e)
      then have "\<not> byte_index sb False i < 8"
        using extract_intel_body_returns [OF i64, of d sb raw] by simp
      moreover have "extract_intel d sb len i raw = Inl e"
        using True Inl by (simp add: extract_intel.simps [of d sb len i])
      ultimately show ?thesis using True by auto
    next
      case (Inr raw')
      then have idx: "byte_index sb False i < 8"
        using extract_intel_body_returns [OF i64, of d sb raw] by auto
      have step: "extract_intel d sb len i raw = extract_intel d sb len (i + 1) raw'"
        using True Inr by (simp add: extract_intel.simps [of d sb len i])
      show ?thesis
        unfolding step from_next [of "\<lambda>j. byte_index sb False j < 8", OF idx]
        using "1.IH" [OF True Inr "1.prems"] .
    qed
  qed
qed

lemma extract_motorola_returns:
  "unat len \<le> 64 \<Longrightarrow>
   (\<exists>w. extract_motorola d sb len i raw = Inr w) =
     (\<forall>j. i \<le> j \<and> j < unat len \<longrightarrow> byte_index sb True j < 8)"
proof (induction d sb len i raw rule: extract_motorola.induct)
  case (1 d sb len i raw)
  show ?case
  proof (cases "i < unat len")
    case False
    then have "extract_motorola d sb len i raw = Inr raw"
      by (simp add: extract_motorola.simps)
    moreover have "\<not> (i \<le> j \<and> j < unat len)" for j
      using False by linarith
    ultimately show ?thesis by auto
  next
    case True
    show ?thesis
    proof (cases "extract_motorola_body d sb len i raw")
      case (Inl e)
      then have "\<not> byte_index sb True i < 8"
        using extract_motorola_body_returns [OF "1.prems", of d sb i raw] by simp
      moreover have "extract_motorola d sb len i raw = Inl e"
        using True Inl by (simp add: extract_motorola.simps [of d sb len i])
      ultimately show ?thesis using True by auto
    next
      case (Inr raw')
      then have idx: "byte_index sb True i < 8"
        using extract_motorola_body_returns [OF "1.prems", of d sb i raw] by auto
      have step: "extract_motorola d sb len i raw = extract_motorola d sb len (i + 1) raw'"
        using True Inr by (simp add: extract_motorola.simps [of d sb len i])
      show ?thesis
        unfolding step from_next [of "\<lambda>j. byte_index sb True j < 8", OF idx]
        using "1.IH" [OF True Inr "1.prems"] .
    qed
  qed
qed

lemma insert_intel_returns:
  "unat len \<le> 64 \<Longrightarrow>
   (\<exists>d'. insert_intel d sb len v i = Inr d') =
     (\<forall>j. i \<le> j \<and> j < unat len \<longrightarrow> byte_index sb False j < 8)"
proof (induction d sb len v i rule: insert_intel.induct)
  case (1 d sb len v i)
  show ?case
  proof (cases "i < unat len")
    case False
    then have "insert_intel d sb len v i = Inr d"
      by (simp add: insert_intel.simps)
    moreover have "\<not> (i \<le> j \<and> j < unat len)" for j
      using False by linarith
    ultimately show ?thesis by auto
  next
    case True
    then have i64: "i < 64" using "1.prems" by linarith
    show ?thesis
    proof (cases "insert_intel_body d sb v i")
      case (Inl e)
      then have "\<not> byte_index sb False i < 8"
        using insert_intel_body_returns [OF i64, of d sb v] by simp
      moreover have "insert_intel d sb len v i = Inl e"
        using True Inl by (simp add: insert_intel.simps [of d])
      ultimately show ?thesis using True by auto
    next
      case (Inr d1)
      then have idx: "byte_index sb False i < 8"
        using insert_intel_body_returns [OF i64, of d sb v] by auto
      have step: "insert_intel d sb len v i = insert_intel d1 sb len v (i + 1)"
        using True Inr by (simp add: insert_intel.simps [of d])
      show ?thesis
        unfolding step from_next [of "\<lambda>j. byte_index sb False j < 8", OF idx]
        using "1.IH" [OF True Inr "1.prems"] .
    qed
  qed
qed

lemma insert_motorola_returns:
  "unat len \<le> 64 \<Longrightarrow>
   (\<exists>d'. insert_motorola d sb len v i = Inr d') =
     (\<forall>j. i \<le> j \<and> j < unat len \<longrightarrow> byte_index sb True j < 8)"
proof (induction d sb len v i rule: insert_motorola.induct)
  case (1 d sb len v i)
  show ?case
  proof (cases "i < unat len")
    case False
    then have "insert_motorola d sb len v i = Inr d"
      by (simp add: insert_motorola.simps)
    moreover have "\<not> (i \<le> j \<and> j < unat len)" for j
      using False by linarith
    ultimately show ?thesis by auto
  next
    case True
    show ?thesis
    proof (cases "insert_motorola_body d sb len v i")
      case (Inl e)
      then have "\<not> byte_index sb True i < 8"
        using insert_motorola_body_returns [OF "1.prems", of d sb v i] by simp
      moreover have "insert_motorola d sb len v i = Inl e"
        using True Inl by (simp add: insert_motorola.simps [of d])
      ultimately show ?thesis using True by auto
    next
      case (Inr d1)
      then have idx: "byte_index sb True i < 8"
        using insert_motorola_body_returns [OF "1.prems", of d sb v i] by auto
      have step: "insert_motorola d sb len v i = insert_motorola d1 sb len v (i + 1)"
        using True Inr by (simp add: insert_motorola.simps [of d])
      show ?thesis
        unfolding step from_next [of "\<lambda>j. byte_index sb True j < 8", OF idx]
        using "1.IH" [OF True Inr "1.prems"] .
    qed
  qed
qed

text \<open>
  Claim C2, as stated, fails: neither function checks the geometry, and there is no
  fault to report. With \<^verbatim>\<open>start_bit = 2048\<close> and \<^verbatim>\<open>length = 8\<close> in Intel order the
  bit positions 2048..2055 are outside 0..63, the byte index \<^verbatim>\<open>bit_pos / 8 = 256\<close> is
  reduced to 0 by the assignment to a \<^verbatim>\<open>uint8_t\<close>, and the call reads, or writes,
  byte 0 of the payload and returns. With the geometry of the claim,
  \<^verbatim>\<open>start_bit = 60\<close> and \<^verbatim>\<open>length = 16\<close>, the first four iterations of the insertion
  loop write bits 60..63 (byte 7 becomes \<open>0xF0\<close> for the value \<open>0xFFFF\<close>) before
  iteration 4 subscripts \<^verbatim>\<open>data[8]\<close>.
\<close>

theorem geometry_not_checked_counterexample:
  "64 \<le> unat (bit_pos_intel 2048 0)
   \<and> Can_ExtractSignal \<lparr> id_msg = 0x123, dlc = 8, data = [0xAB, 0, 0, 0, 0, 0, 0, 0],
        extended_id = False, rtr = False \<rparr> 2048 8 False = Inr 0xAB
   \<and> Can_InsertSignal \<lparr> id_msg = 0x123, dlc = 8, data = [0, 0, 0, 0, 0, 0, 0, 0],
        extended_id = False, rtr = False \<rparr> 2048 8 0xFF False
       = Inr \<lparr> id_msg = 0x123, dlc = 8, data = [0xFF, 0, 0, 0, 0, 0, 0, 0],
               extended_id = False, rtr = False \<rparr>
   \<and> insert_intel [0, 0, 0, 0, 0, 0, 0, 0] 60 4 0xFFFF 0 = Inr [0, 0, 0, 0, 0, 0, 0, 0xF0]
   \<and> insert_intel_body [0, 0, 0, 0, 0, 0, 0, 0xF0] 60 0xFFFF 4 = Inl (Index_Out_Of_Range 8)"
  by (simp add: extract_eval insert_eval)

text \<open>
  Claim C2, amended. The functions make no geometry check and report no fault. For a
  length of at most 64, a call returns exactly when every byte index that its loop
  computes is in 0..7, whatever the bit positions are. When an iteration computes a
  byte index of 8 or more, as iteration 4 does for \<^verbatim>\<open>start_bit = 60\<close> and
  \<^verbatim>\<open>length = 16\<close>, the loop subscripts \<^verbatim>\<open>data[8]\<close> outside its bounds, after the
  iterations before it: the behaviour is undefined in C, and the model stops there.
\<close>

theorem returns_iff_byte_indices_in_array:
  assumes "unat len \<le> 64"
  shows "(\<exists>w. Can_ExtractSignal msg sb len motorola = Inr w)
           = (\<forall>i<unat len. byte_index sb motorola i < 8)
       \<and> (\<exists>msg'. Can_InsertSignal msg sb len v motorola = Inr msg')
           = (\<forall>i<unat len. byte_index sb motorola i < 8)"
proof (cases motorola)
  case True
  have "(\<exists>msg'. Can_InsertSignal msg sb len v True = Inr msg')
      = (\<exists>d'. insert_motorola (data msg) sb len v 0 = Inr d')"
    by (auto simp add: Can_InsertSignal_def split: sum.splits)
  then show ?thesis
    using True extract_motorola_returns [OF assms, of "data msg" sb 0 0]
      insert_motorola_returns [OF assms, of "data msg" sb v 0]
    by (simp add: Can_ExtractSignal_def)
next
  case False
  have "(\<exists>msg'. Can_InsertSignal msg sb len v False = Inr msg')
      = (\<exists>d'. insert_intel (data msg) sb len v 0 = Inr d')"
    by (auto simp add: Can_InsertSignal_def split: sum.splits)
  then show ?thesis
    using False extract_intel_returns [OF assms, of "data msg" sb 0 0]
      insert_intel_returns [OF assms, of "data msg" sb v 0]
    by (simp add: Can_ExtractSignal_def)
qed

theorem returns_iff_byte_indices_in_array_witness:
  "unat (8 :: 8 word) \<le> 64
   \<and> Can_ExtractSignal \<lparr> id_msg = 0x123, dlc = 8, data = [0xAB, 0, 0, 0, 0, 0, 0, 0],
        extended_id = False, rtr = False \<rparr> 2048 8 False = Inr 0xAB
   \<and> byte_index 2048 False 7 < 8
   \<and> Can_ExtractSignal \<lparr> id_msg = 0x123, dlc = 8, data = [0xAB, 0, 0, 0, 0, 0, 0, 0],
        extended_id = False, rtr = False \<rparr> 60 16 False = Inl (Index_Out_Of_Range 8)
   \<and> byte_index 60 False 4 = 8"
proof -
  let ?m = "\<lparr> id_msg = 0x123, dlc = 8, data = [0xAB, 0, 0, 0, 0, 0, 0, 0],
        extended_id = False, rtr = False \<rparr>"
  have l: "unat (8 :: 8 word) \<le> 64" by simp
  have run: "Can_ExtractSignal ?m 2048 8 False = Inr 0xAB"
    by (simp add: extract_eval)
  have stop: "Can_ExtractSignal ?m 60 16 False = Inl (Index_Out_Of_Range 8)"
    by (simp add: extract_eval)
  have idx: "byte_index 60 False 4 = 8"
    by (simp add: byte_index_def addr_defs)
  from returns_iff_byte_indices_in_array [OF l, of ?m 2048 False] run
  have "\<forall>i<unat (8 :: 8 word). byte_index 2048 False i < 8" by simp
  then have "byte_index 2048 False 7 < 8" by simp
  then show ?thesis using l run stop idx by simp
qed

section \<open>The fields that insertion leaves alone\<close>

lemma set_or_clear_length:
  assumes "set_or_clear d byte_idx bit_idx b = Inr d'"
  shows "length d' = length d"
  using assms by (auto simp add: set_or_clear_def split: if_splits)

lemma insert_intel_body_length:
  assumes "insert_intel_body d sb v i = Inr d'"
  shows "length d' = length d"
  using assms
  by (auto simp add: insert_intel_body_def Let_def split: if_splits dest: set_or_clear_length)

lemma insert_motorola_body_length:
  assumes "insert_motorola_body d sb len v i = Inr d'"
  shows "length d' = length d"
  using assms
  by (auto simp add: insert_motorola_body_def Let_def split: if_splits dest: set_or_clear_length)

lemma insert_intel_length:
  "insert_intel d sb len v i = Inr d' \<Longrightarrow> length d' = length d"
proof (induction d sb len v i rule: insert_intel.induct)
  case (1 d sb len v i)
  show ?case
  proof (cases "i < unat len")
    case False
    then show ?thesis using "1.prems" by (simp add: insert_intel.simps [of d])
  next
    case True
    then obtain d1 where body: "insert_intel_body d sb v i = Inr d1"
      and run: "insert_intel d1 sb len v (i + 1) = Inr d'"
      using "1.prems" by (auto simp add: insert_intel.simps [of d] split: sum.splits)
    have "length d' = length d1" using True body run by (rule "1.IH")
    then show ?thesis using insert_intel_body_length [OF body] by simp
  qed
qed

lemma insert_motorola_length:
  "insert_motorola d sb len v i = Inr d' \<Longrightarrow> length d' = length d"
proof (induction d sb len v i rule: insert_motorola.induct)
  case (1 d sb len v i)
  show ?case
  proof (cases "i < unat len")
    case False
    then show ?thesis using "1.prems" by (simp add: insert_motorola.simps [of d])
  next
    case True
    then obtain d1 where body: "insert_motorola_body d sb len v i = Inr d1"
      and run: "insert_motorola d1 sb len v (i + 1) = Inr d'"
      using "1.prems" by (auto simp add: insert_motorola.simps [of d] split: sum.splits)
    have "length d' = length d1" using True body run by (rule "1.IH")
    then show ?thesis using insert_motorola_body_length [OF body] by simp
  qed
qed

lemma field_in_payload_byte_indices:
  assumes "field_in_payload sb len motorola"
  shows "unat len \<le> 64 \<and> (\<forall>i<unat len. byte_index sb motorola i < 8)"
proof (cases motorola)
  case True
  then have f: "unat len \<le> unat sb + 1" "unat sb < 64"
    using assms by (simp_all add: field_in_payload_def)
  have "byte_index sb True i < 8" if "i < unat len" for i
  proof -
    have "i \<le> unat sb" using that f(1) by linarith
    then show ?thesis
      using f(2) by (simp add: byte_index_def byte_idx_motorola_in_range)
  qed
  then show ?thesis using True f by auto
next
  case False
  then have f: "unat sb + unat len \<le> 64"
    using assms by (simp add: field_in_payload_def)
  have "byte_index sb False i < 8" if "i < unat len" for i
  proof -
    have "unat sb + i < 64" using that f by linarith
    then show ?thesis
      by (simp add: byte_index_def byte_idx_intel_in_range)
  qed
  then show ?thesis using False f by auto
qed

text \<open>
  Claim C10, as stated, fails on the geometries for which the loop subscripts
  \<^verbatim>\<open>data\<close> outside its bounds. With \<^verbatim>\<open>start_bit = 60\<close>, \<^verbatim>\<open>length = 16\<close> and the
  value \<open>0xFFFF\<close> in Intel order, iterations 0..3 write byte 7, iterations 4..11
  subscript \<^verbatim>\<open>data[8]\<close> and iterations 12..15 \<^verbatim>\<open>data[9]\<close>, which are not elements of
  \<^verbatim>\<open>data\<close>: the bytes that follow the array in \<^verbatim>\<open>Can_Message_t\<close> are those of
  \<^verbatim>\<open>extended_id\<close> and \<^verbatim>\<open>rtr\<close>. The call has no defined result, and no message with
  the four fields unchanged comes out of it.
\<close>

theorem insert_frame_counterexample:
  "Can_InsertSignal \<lparr> id_msg = 0x123, dlc = 8, data = [0, 0, 0, 0, 0, 0, 0, 0],
        extended_id = False, rtr = False \<rparr> 60 16 0xFFFF False
     = Inl (Index_Out_Of_Range 8)
   \<and> byte_index 60 False 3 = 7 \<and> byte_index 60 False 4 = 8 \<and> byte_index 60 False 12 = 9"
  by (simp add: insert_eval byte_index_def)

text \<open>
  Claim C10, amended. For every message and value, and every geometry with a length
  of at most 64 whose byte indices are all in 0..7 (every geometry that lies within
  the payload is one, \<open>field_in_payload_byte_indices\<close>), \<^verbatim>\<open>Can_InsertSignal\<close> returns
  and has modified the \<^verbatim>\<open>data\<close> array only, which keeps its size: \<^verbatim>\<open>id\<close>, \<^verbatim>\<open>dlc\<close>,
  \<^verbatim>\<open>extended_id\<close> and \<^verbatim>\<open>rtr\<close> are those of the message it was given.
\<close>

theorem insert_changes_data_only:
  assumes "unat len \<le> 64" and "\<forall>i<unat len. byte_index sb motorola i < 8"
  shows "\<exists>msg'. Can_InsertSignal msg sb len v motorola = Inr msg'
           \<and> id_msg msg' = id_msg msg \<and> dlc msg' = dlc msg
           \<and> extended_id msg' = extended_id msg \<and> rtr msg' = rtr msg
           \<and> length (data msg') = length (data msg)"
proof (cases motorola)
  case True
  have "\<exists>d'. insert_motorola (data msg) sb len v 0 = Inr d'"
    unfolding insert_motorola_returns [OF assms(1)] using assms(2) True by simp
  then obtain d' where run: "insert_motorola (data msg) sb len v 0 = Inr d'" ..
  have "length d' = length (data msg)"
    using run by (rule insert_motorola_length)
  then show ?thesis
    using True run by (simp add: Can_InsertSignal_def)
next
  case False
  have "\<exists>d'. insert_intel (data msg) sb len v 0 = Inr d'"
    unfolding insert_intel_returns [OF assms(1)] using assms(2) False by simp
  then obtain d' where run: "insert_intel (data msg) sb len v 0 = Inr d'" ..
  have "length d' = length (data msg)"
    using run by (rule insert_intel_length)
  then show ?thesis
    using False run by (simp add: Can_InsertSignal_def)
qed

theorem insert_changes_data_only_witness:
  "unat (8 :: 8 word) \<le> 64
   \<and> byte_index 4 False 7 = 1
   \<and> Can_InsertSignal \<lparr> id_msg = 0x123, dlc = 8, data = [0, 0, 0, 0, 0, 0, 0, 0],
        extended_id = True, rtr = False \<rparr> 4 8 0xA5 False
     = Inr \<lparr> id_msg = 0x123, dlc = 8, data = [0x50, 0x0A, 0, 0, 0, 0, 0, 0],
             extended_id = True, rtr = False \<rparr>"
proof -
  let ?m = "\<lparr> id_msg = 0x123, dlc = 8, data = [0, 0, 0, 0, 0, 0, 0, 0],
        extended_id = True, rtr = False \<rparr>"
  have l: "unat (8 :: 8 word) \<le> 64" by simp
  have "field_in_payload 4 8 False" by (simp add: field_in_payload_def)
  then have idx: "\<forall>i<unat (8 :: 8 word). byte_index 4 False i < 8"
    using field_in_payload_byte_indices by blast
  have b: "byte_index 4 False 7 = 1" by (simp add: byte_index_def addr_defs)
  have run: "Can_InsertSignal ?m 4 8 0xA5 False
     = Inr \<lparr> id_msg = 0x123, dlc = 8, data = [0x50, 0x0A, 0, 0, 0, 0, 0, 0],
             extended_id = True, rtr = False \<rparr>"
    by (simp add: insert_eval)
  from insert_changes_data_only [OF l idx, of ?m "0xA5"] run l b show ?thesis by simp
qed

end
